theory Spec2Isabelle
  imports Complex_Main "HOL-Library.Multiset"
begin

section \<open>Data model (pkg/models)\<close>

text \<open>
  An instant (Go \<^verbatim>\<open>time.Time\<close>) is an integer number of nanoseconds counted from the zero
  instant; \<^verbatim>\<open>t.Before(u)\<close> is \<open>t < u\<close> and \<^verbatim>\<open>t.After(u)\<close> is \<open>u < t\<close>. A monetary
  amount (Go \<^verbatim>\<open>float64\<close>) is a real number: every amount the bidders compute is a finite
  number, and on finite numbers the comparisons \<^verbatim>\<open>>\<close> and \<^verbatim>\<open>==\<close> of the source are
  the order and the equality of the reals.
\<close>

type_synonym instant = int

definition zero_instant :: instant where
  "zero_instant = 0"

record Bid =
  BidderID :: int
  Amount :: real
  Timestamp :: instant

text \<open>
  The field \<open>Winner\<close> of the source is a pointer \<^verbatim>\<open>*Bid\<close> that is either nil or the address
  \<^verbatim>\<open>&a.Bids[i]\<close> of an element of the bid slice: it is modelled by the index \<open>i\<close>.
\<close>

record Auction =
  ID :: int
  Attributes :: "real list"
  Timeout :: int
  TimeoutMs :: int
  StartTime :: instant
  EndTime :: instant
  Bids :: "Bid list"
  Winner :: "nat option"
  TotalBids :: nat

text \<open>
  A \<^verbatim>\<open>time.Duration\<close> is a number of nanoseconds; \<^verbatim>\<open>Milliseconds\<close> divides it by
  \<open>10\<^sup>6\<close>, truncating towards zero as Go's integer division does.
\<close>

definition Milliseconds :: "int \<Rightarrow> int" where
  "Milliseconds d = (if d < 0 then - ((- d) div 1000000) else d div 1000000)"

definition NewAuction :: "int \<Rightarrow> int \<Rightarrow> Auction" where
  "NewAuction auction_id timeout =
     \<lparr>ID = auction_id, Attributes = replicate 20 0, Timeout = timeout,
      TimeoutMs = Milliseconds timeout, StartTime = zero_instant, EndTime = zero_instant,
      Bids = [], Winner = None, TotalBids = 0\<rparr>"

definition AddBid :: "Bid \<Rightarrow> Auction \<Rightarrow> Auction" where
  "AddBid bid a = a\<lparr>Bids := Bids a @ [bid]\<rparr>"

text \<open>
  The loop of \<^verbatim>\<open>DetermineWinner\<close>: \<open>i\<close> is the loop counter and \<open>winner\<close> the index the
  pointer \<^verbatim>\<open>winner\<close> refers to.
\<close>

function scan_bids :: "Bid list \<Rightarrow> nat \<Rightarrow> nat \<Rightarrow> nat" where
  "scan_bids bids i winner =
     (if i < length bids then
        scan_bids bids (i + 1)
          (if Amount (bids ! i) > Amount (bids ! winner) then i
           else if Amount (bids ! i) = Amount (bids ! winner)
                   \<and> Timestamp (bids ! i) < Timestamp (bids ! winner) then i
           else winner)
      else winner)"
  by pat_completeness auto
termination
  by (relation "measure (\<lambda>(bids, i, winner). length bids - i)") auto

declare scan_bids.simps [simp del]

definition DetermineWinner :: "Auction \<Rightarrow> Auction" where
  "DetermineWinner a =
     (let a1 = a\<lparr>TotalBids := length (Bids a)\<rparr> in
      if length (Bids a1) = 0 then a1\<lparr>Winner := None\<rparr>
      else a1\<lparr>Winner := Some (scan_bids (Bids a1) 1 0)\<rparr>)"

text \<open>Reading the bid the pointer \<open>Winner\<close> refers to.\<close>

definition winner_bid :: "Auction \<Rightarrow> Bid option" where
  "winner_bid a = (case Winner a of None \<Rightarrow> None | Some w \<Rightarrow> Some (Bids a ! w))"

text \<open>
  The loop invariant: the current winner lies before the counter, no bid before the
  counter has a greater amount, and none of equal amount has an earlier timestamp.
\<close>

definition best_upto :: "Bid list \<Rightarrow> nat \<Rightarrow> nat \<Rightarrow> bool" where
  "best_upto bids i w \<longleftrightarrow>
     w < i \<and> (\<forall>j<i. Amount (bids ! j) \<le> Amount (bids ! w)
                 \<and> (Amount (bids ! j) = Amount (bids ! w)
                      \<longrightarrow> Timestamp (bids ! w) \<le> Timestamp (bids ! j)))"


section \<open>Global bounds of the manager (internal/manager)\<close>

text \<open>
  The loop at the end of \<^verbatim>\<open>Manager.Run\<close> over the collected auctions, with the running
  values of \<^verbatim>\<open>firstStart\<close> and \<^verbatim>\<open>lastEnd\<close>; \<open>collected\<close> is the slice
  \<^verbatim>\<open>auctionResults\<close>.
\<close>

fun bounds_loop :: "Auction list \<Rightarrow> instant \<Rightarrow> instant \<Rightarrow> instant \<times> instant" where
  "bounds_loop [] firstStart lastEnd = (firstStart, lastEnd)"
| "bounds_loop (a # as) firstStart lastEnd =
     bounds_loop as
       (if StartTime a < firstStart then StartTime a else firstStart)
       (if lastEnd < EndTime a then EndTime a else lastEnd)"

definition global_bounds :: "Auction list \<Rightarrow> instant \<times> instant" where
  "global_bounds collected =
     (if length collected > 0
      then bounds_loop collected
             (StartTime (collected ! 0)) (EndTime (collected ! 0))
      else (zero_instant, zero_instant))"

section \<open>Bidders (internal/bidder)\<close>

text \<open>The field \<^verbatim>\<open>ID\<close> of a bidder is called \<open>Bidder_ID\<close>, \<open>ID\<close> being the auction's.\<close>

record Bidder =
  Bidder_ID :: int
  ParticipationRate :: real

text \<open>
  The pseudo-random numbers of \<^verbatim>\<open>math/rand\<close> are parameters: \<open>r\<close> stands for the value
  \<^verbatim>\<open>rand.Float64()\<close> returned at that place, a real of \<open>[0, 1)\<close>, and \<open>v\<close> for the raw
  non-negative integer that \<^verbatim>\<open>rand.Intn(n)\<close> reduces modulo \<open>n\<close>.
\<close>

definition NewBidder :: "int \<Rightarrow> real \<Rightarrow> Bidder" where
  "NewBidder bidder_id r = \<lparr>Bidder_ID = bidder_id, ParticipationRate = 0.6 + r * 0.2\<rparr>"

definition Intn :: "nat \<Rightarrow> nat \<Rightarrow> nat" where
  "Intn n v = v mod n"

text \<open>\<^verbatim>\<open>ConsiderBid\<close> returns early, or starts the goroutine \<^verbatim>\<open>placeBid\<close>: the result
  says whether it starts it.\<close>

definition ConsiderBid :: "Bidder \<Rightarrow> real \<Rightarrow> bool" where
  "ConsiderBid b r = (if r > ParticipationRate b then False else True)"

text \<open>The delay of \<^verbatim>\<open>placeBid\<close>, in milliseconds.\<close>

definition processingDelay :: "nat \<Rightarrow> nat" where
  "processingDelay v = 10 + Intn 490 v"

section \<open>Channels\<close>

text \<open>
  A buffered Go channel: the queued values, the capacity, and whether it has been closed.
  A \<^verbatim>\<open>select\<close> with one send case and a \<^verbatim>\<open>default\<close> case takes the send case when the
  send can proceed; a send on a closed channel proceeds by panicking, a send on an open
  channel proceeds when the buffer has room, and otherwise the default case runs.
\<close>

record 'a chan =
  buf :: "'a list"
  capacity :: nat
  closed :: bool

definition make_chan :: "nat \<Rightarrow> 'a chan" where
  "make_chan n = \<lparr>buf = [], capacity = n, closed = False\<rparr>"

datatype submit_outcome = Submitted "Bid chan" | Dropped | SendOnClosedPanic

definition placeBid_select :: "Bid chan \<Rightarrow> Bid \<Rightarrow> submit_outcome" where
  "placeBid_select c bid =
     (if closed c then SendOnClosedPanic
      else if length (buf c) < capacity c then Submitted (c\<lparr>buf := buf c @ [bid]\<rparr>)
      else Dropped)"

text \<open>
  \<^verbatim>\<open>placeBid\<close> after its sleep: \<open>bidAmount\<close> is the value of \<^verbatim>\<open>calculateBid\<close> and \<open>now\<close>
  the reading of the clock.
\<close>

definition placeBid :: "Bidder \<Rightarrow> real \<Rightarrow> instant \<Rightarrow> Bid chan \<Rightarrow> submit_outcome" where
  "placeBid b bidAmount now c =
     placeBid_select c \<lparr>BidderID = Bidder_ID b, Amount = bidAmount, Timestamp = now\<rparr>"

section \<open>The manager's bidders and the notification of an auction\<close>

definition NumAuctions :: nat where
  "NumAuctions = 40"

definition NumBidders :: nat where
  "NumBidders = 100"

text \<open>The bidders of \<^verbatim>\<open>NewManager\<close>; \<open>rnd i\<close> is the random number drawn for bidder \<open>i\<close>.\<close>

definition NewManager :: "(nat \<Rightarrow> real) \<Rightarrow> Bidder list" where
  "NewManager rnd = map (\<lambda>i. NewBidder (int i + 1) (rnd i)) [0..<NumBidders]"

text \<open>
  \<^verbatim>\<open>notifyBidders\<close> calls \<^verbatim>\<open>ConsiderBid\<close> on every bidder in turn; the result lists the
  bidders whose goroutine \<^verbatim>\<open>placeBid\<close> has been started.
\<close>

definition notifyBidders :: "Bidder list \<Rightarrow> (nat \<Rightarrow> real) \<Rightarrow> Bidder list" where
  "notifyBidders bidders rnd =
     map fst (filter (\<lambda>(b, i). ConsiderBid b (rnd i)) (zip bidders [0..<length bidders]))"

section \<open>One auction run (internal/auction) as a transition system\<close>

text \<open>
  \<^verbatim>\<open>Run\<close> and the goroutines it starts run concurrently; a state holds what they share.
  \<open>waiting\<close> lists the bidders whose goroutine \<^verbatim>\<open>placeBid\<close> has been started and has not
  reached its \<^verbatim>\<open>select\<close> yet; \<open>clock\<close> is the instant \<^verbatim>\<open>time.Now()\<close> would return, which
  never goes back; \<open>deadline\<close> says that \<^verbatim>\<open>auctionCtx.Done()\<close> is closed, which the timer of
  \<^verbatim>\<open>context.WithTimeout\<close> does no earlier than the timeout after the start (the parent
  context is \<^verbatim>\<open>context.Background()\<close>, which is never cancelled). In
  phase \<open>Open\<close> the collecting goroutine is in its loop; in \<open>Closing\<close> it has returned and
  \<^verbatim>\<open>done\<close> is closed; in \<open>Closed\<close> the run has closed \<^verbatim>\<open>bidChan\<close>, recorded the end instant
  and resolved the winner. A panic ends the process.
\<close>

datatype phase = Open | Closing | Closed

record run_state =
  auction :: Auction
  bidChan :: "Bid chan"
  waiting :: "Bidder list"
  clock :: instant
  deadline :: bool
  phase :: phase
  panicked :: bool

definition Run_init ::
  "int \<Rightarrow> int \<Rightarrow> real list \<Rightarrow> instant \<Rightarrow> Bidder list \<Rightarrow> (nat \<Rightarrow> real) \<Rightarrow> run_state" where
  "Run_init auction_id timeout attrs now bidders rnd =
     \<lparr>auction = (NewAuction auction_id timeout)\<lparr>Attributes := attrs, StartTime := now\<rparr>,
      bidChan = make_chan 200,
      waiting = notifyBidders bidders rnd,
      clock = now,
      deadline = False, phase = Open, panicked = False\<rparr>"

inductive run_step :: "run_state \<Rightarrow> run_state \<Rightarrow> bool" where
  tick:
    "\<not> panicked s \<Longrightarrow> clock s \<le> later \<Longrightarrow> run_step s (s\<lparr>clock := later\<rparr>)"
| submit:
    "\<not> panicked s \<Longrightarrow> b \<in> set (waiting s)
       \<Longrightarrow> placeBid b bidAmount (clock s) (bidChan s) = Submitted c
       \<Longrightarrow> run_step s (s\<lparr>waiting := remove1 b (waiting s), bidChan := c\<rparr>)"
| drop:
    "\<not> panicked s \<Longrightarrow> b \<in> set (waiting s)
       \<Longrightarrow> placeBid b bidAmount (clock s) (bidChan s) = Dropped
       \<Longrightarrow> run_step s (s\<lparr>waiting := remove1 b (waiting s)\<rparr>)"
| panic:
    "\<not> panicked s \<Longrightarrow> b \<in> set (waiting s)
       \<Longrightarrow> placeBid b bidAmount (clock s) (bidChan s) = SendOnClosedPanic
       \<Longrightarrow> run_step s (s\<lparr>waiting := remove1 b (waiting s), panicked := True\<rparr>)"
| receive:
    "\<not> panicked s \<Longrightarrow> phase s = Open \<Longrightarrow> buf (bidChan s) = bid # rest
       \<Longrightarrow> run_step s (s\<lparr>auction := AddBid bid (auction s),
                          bidChan := (bidChan s)\<lparr>buf := rest\<rparr>\<rparr>)"
| fire:
    "\<not> panicked s \<Longrightarrow> \<not> deadline s
       \<Longrightarrow> StartTime (auction s) + Timeout (auction s) \<le> clock s
       \<Longrightarrow> run_step s (s\<lparr>deadline := True\<rparr>)"
| stop:
    "\<not> panicked s \<Longrightarrow> phase s = Open \<Longrightarrow> deadline s
       \<Longrightarrow> run_step s (s\<lparr>phase := Closing\<rparr>)"
| close:
    "\<not> panicked s \<Longrightarrow> phase s = Closing
       \<Longrightarrow> run_step s (s\<lparr>phase := Closed,
                          bidChan := (bidChan s)\<lparr>closed := True\<rparr>,
                          auction := DetermineWinner ((auction s)\<lparr>EndTime := clock s\<rparr>)\<rparr>)"

definition run_reachable :: "run_state \<Rightarrow> run_state \<Rightarrow> bool" where
  "run_reachable = run_step\<^sup>*\<^sup>*"

text \<open>
  The bidder identifiers present in a state of a run: those of the goroutines still to
  submit, of the bids queued in the channel and of the bids appended to the auction.
\<close>

definition run_ids :: "run_state \<Rightarrow> int multiset" where
  "run_ids s =
     mset (map Bidder_ID (waiting s)) + mset (map BidderID (buf (bidChan s)))
       + mset (map BidderID (Bids (auction s)))"

text \<open>
  What holds of the instants in every state of a run: the clock is not before the start,
  the deadline fires no earlier than the timeout after the start, the collecting loop stops
  only when the deadline has fired, and the end instant is read after that.
\<close>

definition run_inv :: "run_state \<Rightarrow> bool" where
  "run_inv s \<longleftrightarrow>
     StartTime (auction s) \<le> clock s
     \<and> (deadline s \<longrightarrow> StartTime (auction s) + Timeout (auction s) \<le> clock s)
     \<and> (phase s \<noteq> Open \<longrightarrow> deadline s)
     \<and> (phase s = Closed \<longrightarrow>
           StartTime (auction s) \<le> EndTime (auction s)
           \<and> StartTime (auction s) + Timeout (auction s) \<le> EndTime (auction s))"

text \<open>What winner resolution has established once a run is closed.\<close>

definition run_resolved :: "run_state \<Rightarrow> bool" where
  "run_resolved s \<longleftrightarrow>
     (phase s = Closed \<longrightarrow>
        TotalBids (auction s) = length (Bids (auction s))
        \<and> (Winner (auction s) = None \<longleftrightarrow> Bids (auction s) = []))"

section \<open>The manager's fan-in (internal/manager) as a transition system\<close>

text \<open>
  \<^verbatim>\<open>Manager.Run\<close> launches one goroutine per auction identifier \<open>1, \<dots>, NumAuctions\<close>, each
  running \<^verbatim>\<open>auction.Run\<close> with a timeout of 5 seconds; one more goroutine waits for the
  wait group and closes \<^verbatim>\<open>results\<close>; the caller ranges over \<^verbatim>\<open>results\<close>. In a state,
  \<open>running\<close> lists the identifiers of the goroutines that have not sent their auction yet,
  \<open>finishing\<close> those that have sent it and have not called \<^verbatim>\<open>wg.Done\<close> yet (the counter
  of the wait group is the number of both), \<open>auctionResults\<close> is the slice collected so
  far, \<open>returned\<close> says that the range loop has ended, and \<open>crashed\<close> that a goroutine of
  the process has panicked. The auction a goroutine sends is the auction of a state of its
  run in phase \<open>Closed\<close>.
\<close>

record mgr_state =
  running :: "int list"
  finishing :: "int list"
  results :: "Auction chan"
  auctionResults :: "Auction list"
  returned :: bool
  crashed :: bool

definition auction_ids :: "int list" where
  "auction_ids = map int [1..<NumAuctions + 1]"

definition Manager_init :: mgr_state where
  "Manager_init =
     \<lparr>running = auction_ids, finishing = [], results = make_chan NumAuctions,
      auctionResults = [], returned = False, crashed = False\<rparr>"

inductive mgr_step :: "Bidder list \<Rightarrow> mgr_state \<Rightarrow> mgr_state \<Rightarrow> bool"
  for bidders :: "Bidder list" where
  emit:
    "\<not> crashed m \<Longrightarrow> auction_id \<in> set (running m)
       \<Longrightarrow> run_reachable (Run_init auction_id 5000000000 attrs now bidders rnd) r
       \<Longrightarrow> phase r = Closed \<Longrightarrow> \<not> panicked r
       \<Longrightarrow> \<not> closed (results m) \<Longrightarrow> length (buf (results m)) < capacity (results m)
       \<Longrightarrow> mgr_step bidders m
             (m\<lparr>running := remove1 auction_id (running m),
                finishing := auction_id # finishing m,
                results := (results m)\<lparr>buf := buf (results m) @ [auction r]\<rparr>\<rparr>)"
| wg_done:
    "\<not> crashed m \<Longrightarrow> auction_id \<in> set (finishing m)
       \<Longrightarrow> mgr_step bidders m (m\<lparr>finishing := remove1 auction_id (finishing m)\<rparr>)"
| wait_close:
    "\<not> crashed m \<Longrightarrow> running m = [] \<Longrightarrow> finishing m = [] \<Longrightarrow> \<not> closed (results m)
       \<Longrightarrow> mgr_step bidders m (m\<lparr>results := (results m)\<lparr>closed := True\<rparr>\<rparr>)"
| collect:
    "\<not> crashed m \<Longrightarrow> \<not> returned m \<Longrightarrow> buf (results m) = a # rest
       \<Longrightarrow> mgr_step bidders m
             (m\<lparr>auctionResults := auctionResults m @ [a],
                results := (results m)\<lparr>buf := rest\<rparr>\<rparr>)"
| finish:
    "\<not> crashed m \<Longrightarrow> \<not> returned m \<Longrightarrow> closed (results m) \<Longrightarrow> buf (results m) = []
       \<Longrightarrow> mgr_step bidders m (m\<lparr>returned := True\<rparr>)"
| crash:
    "\<not> crashed m \<Longrightarrow> auction_id \<in> set auction_ids
       \<Longrightarrow> run_reachable (Run_init auction_id 5000000000 attrs now bidders rnd) r
       \<Longrightarrow> panicked r
       \<Longrightarrow> mgr_step bidders m (m\<lparr>crashed := True\<rparr>)"

definition mgr_reachable :: "Bidder list \<Rightarrow> mgr_state \<Rightarrow> bool" where
  "mgr_reachable bidders = (mgr_step bidders)\<^sup>*\<^sup>* Manager_init"

definition mgr_inv :: "mgr_state \<Rightarrow> bool" where
  "mgr_inv m \<longleftrightarrow>
     mset (map ID (auctionResults m)) + mset (map ID (buf (results m))) + mset (running m)
       = mset auction_ids
     \<and> capacity (results m) = NumAuctions
     \<and> (closed (results m) \<longrightarrow> running m = [] \<and> finishing m = [])
     \<and> (returned m \<longrightarrow> closed (results m) \<and> buf (results m) = [])"

definition mgr_measure :: "mgr_state \<Rightarrow> nat" where
  "mgr_measure m =
     3 * length (running m) + length (finishing m) + length (buf (results m))
       + (if closed (results m) then 0 else 1) + (if returned m then 0 else 1)
       + (if crashed m then 0 else 1)"

text \<open>
  A completed auction of the manager is the auction of a run of \<^verbatim>\<open>auction.Run\<close> for its
  identifier, with the timeout of 5 seconds and over the given bidders, that has reached
  the phase \<open>Closed\<close> (collection stopped, end instant recorded, winner resolved) without
  a panic: it is what the last statement of \<^verbatim>\<open>auction.Run\<close> sends.
\<close>

definition completed_auction :: "Bidder list \<Rightarrow> Auction \<Rightarrow> bool" where
  "completed_auction bidders a \<longleftrightarrow>
     (\<exists>attrs now rnd r.
        run_reachable (Run_init (ID a) 5000000000 attrs now bidders rnd) r
        \<and> phase r = Closed \<and> \<not> panicked r \<and> auction r = a)"

definition mgr_completed :: "Bidder list \<Rightarrow> mgr_state \<Rightarrow> bool" where
  "mgr_completed bidders m \<longleftrightarrow>
     (\<forall>a \<in> set (auctionResults m) \<union> set (buf (results m)). completed_auction bidders a)"

section \<open>The shared random source\<close>

text \<open>
  \<^verbatim>\<open>rand.Seed(seed)\<close> fixes the sequence of numbers of the global source of
  \<^verbatim>\<open>math/rand\<close>: \<open>src k\<close> is the number that the \<open>k\<close>-th call of \<^verbatim>\<open>rand.Float64()\<close> made
  by the process returns, whichever goroutine makes it. The goroutines of the auctions
  run concurrently and all draw from this source; a schedule lists, call after call, the
  identifier of the auction whose goroutine makes the call. The first 20 calls of the
  goroutine of an auction are those of the loop of \<^verbatim>\<open>auction.Run\<close> that fills
  \<^verbatim>\<open>auction.Attributes\<close>.
\<close>

definition draws_of :: "int list \<Rightarrow> int \<Rightarrow> nat list" where
  "draws_of schedule auction_id =
     filter (\<lambda>k. schedule ! k = auction_id) [0..<length schedule]"

definition Run_attributes :: "(nat \<Rightarrow> real) \<Rightarrow> int list \<Rightarrow> int \<Rightarrow> real list" where
  "Run_attributes src schedule auction_id = map src (take 20 (draws_of schedule auction_id))"

section \<open>Example data\<close>

definition example_auction :: Auction where
  "example_auction =
     (NewAuction 1 5000000000)
       \<lparr>Bids := [\<lparr>BidderID = 1, Amount = 100, Timestamp = 5\<rparr>,
                 \<lparr>BidderID = 2, Amount = 250, Timestamp = 9\<rparr>,
                 \<lparr>BidderID = 3, Amount = 250, Timestamp = 7\<rparr>]\<rparr>"

definition example_results :: "Auction list" where
  "example_results =
     [(NewAuction 1 5000000000)\<lparr>StartTime := 30, EndTime := 5000000040\<rparr>,
      (NewAuction 2 5000000000)\<lparr>StartTime := 10, EndTime := 5000000020\<rparr>,
      (NewAuction 3 5000000000)\<lparr>StartTime := 20, EndTime := 5000000090\<rparr>]"

definition late_run :: run_state where
  "late_run = Run_init 1 5000000 (replicate 20 0) 0 [NewBidder 1 0] (\<lambda>i. 0)"

definition manager_run :: run_state where
  "manager_run = Run_init 1 5000000000 (replicate 20 0) 0 (NewManager (\<lambda>i. 0)) (\<lambda>i. 0)"

definition example_source :: "nat \<Rightarrow> real" where
  "example_source k = real k / 1000"

definition schedule_a :: "int list" where
  "schedule_a = replicate 20 1 @ replicate 20 2"

definition schedule_b :: "int list" where
  "schedule_b = replicate 20 2 @ replicate 20 1"

definition short_run :: run_state where
  "short_run = Run_init 1 20000000 (replicate 20 0) 0 [NewBidder 1 0] (\<lambda>i. 0)"

definition waiting_bid :: Bid where
  "waiting_bid = \<lparr>BidderID = 1, Amount = 100, Timestamp = 20000000\<rparr>"

definition at_deadline :: run_state where
  "at_deadline =
     short_run\<lparr>clock := 20000000, waiting := [],
                bidChan := (make_chan 200)\<lparr>buf := [waiting_bid]\<rparr>, deadline := True\<rparr>"

definition after_deadline :: run_state where
  "after_deadline =
     at_deadline\<lparr>auction := AddBid waiting_bid (auction at_deadline),
                  bidChan := (bidChan at_deadline)\<lparr>buf := []\<rparr>\<rparr>"

definition run_stopped :: run_state where
  "run_stopped = after_deadline\<lparr>phase := Closing\<rparr>"

definition run_closed :: run_state where
  "run_closed =
     run_stopped\<lparr>phase := Closed, bidChan := (bidChan run_stopped)\<lparr>closed := True\<rparr>,
                  auction := DetermineWinner ((auction run_stopped)\<lparr>EndTime := clock run_stopped\<rparr>)\<rparr>"

section \<open>Theorems on winner resolution\<close>

lemma best_upto_step:
  assumes "best_upto bids i w" and "i < length bids"
  shows "best_upto bids (i + 1)
           (if Amount (bids ! i) > Amount (bids ! w) then i
            else if Amount (bids ! i) = Amount (bids ! w)
                    \<and> Timestamp (bids ! i) < Timestamp (bids ! w) then i
            else w)"
proof -
  from assms(1) have w: "w < i"
    and all: "\<And>j. j < i \<Longrightarrow> Amount (bids ! j) \<le> Amount (bids ! w)"
    and tie: "\<And>j. j < i \<Longrightarrow> Amount (bids ! j) = Amount (bids ! w)
                 \<Longrightarrow> Timestamp (bids ! w) \<le> Timestamp (bids ! j)"
    by (auto simp: best_upto_def)
  show ?thesis
  proof (cases "Amount (bids ! i) > Amount (bids ! w)")
    case True
    have "Amount (bids ! j) \<le> Amount (bids ! i)" if "j < i" for j
      using all [OF that] True by simp
    moreover have "Amount (bids ! j) \<noteq> Amount (bids ! i)" if "j < i" for j
      using all [OF that] True by simp
    ultimately show ?thesis
      using True by (simp add: best_upto_def less_Suc_eq)
  next
    case False
    note notgreater = this
    show ?thesis
    proof (cases "Amount (bids ! i) = Amount (bids ! w)
                   \<and> Timestamp (bids ! i) < Timestamp (bids ! w)")
      case True
      have "Timestamp (bids ! i) \<le> Timestamp (bids ! j)"
        if "j < i" "Amount (bids ! j) = Amount (bids ! w)" for j
        using tie [OF that] True by simp
      then show ?thesis
        using True all by (simp add: best_upto_def less_Suc_eq)
    next
      case False
      then have "Amount (bids ! i) = Amount (bids ! w)
                   \<Longrightarrow> Timestamp (bids ! w) \<le> Timestamp (bids ! i)"
        by simp
      moreover have "Amount (bids ! i) \<le> Amount (bids ! w)"
        using notgreater by simp
      ultimately show ?thesis
        using False notgreater w all tie
        by (simp add: best_upto_def less_Suc_eq) blast
    qed
  qed
qed

lemma scan_bids_best:
  "best_upto bids i w \<Longrightarrow> i \<le> length bids
     \<Longrightarrow> best_upto bids (length bids) (scan_bids bids i w)"
proof (induction bids i w rule: scan_bids.induct)
  case (1 bids i winner)
  show ?case
  proof (cases "i < length bids")
    case True
    have "best_upto bids (length bids)
            (scan_bids bids (i + 1)
               (if Amount (bids ! i) > Amount (bids ! winner) then i
                else if Amount (bids ! i) = Amount (bids ! winner)
                        \<and> Timestamp (bids ! i) < Timestamp (bids ! winner) then i
                else winner))"
      using True "1.prems" by (intro "1.IH" best_upto_step) auto
    then show ?thesis
      using True by (subst scan_bids.simps) simp
  next
    case False
    with "1.prems" have "i = length bids" by simp
    with "1.prems" False show ?thesis
      by (subst scan_bids.simps) simp
  qed
qed

lemma best_upto_start: "bids \<noteq> [] \<Longrightarrow> best_upto bids 1 0"
  by (simp add: best_upto_def)

lemma scan_bids_from_start:
  "bids \<noteq> [] \<Longrightarrow> best_upto bids (length bids) (scan_bids bids 1 0)"
  by (rule scan_bids_best [OF best_upto_start]) (auto simp: Suc_le_eq)

lemma DetermineWinner_Bids: "Bids (DetermineWinner a) = Bids a"
  by (simp add: DetermineWinner_def Let_def)

lemma DetermineWinner_TotalBids: "TotalBids (DetermineWinner a) = length (Bids a)"
  by (simp add: DetermineWinner_def Let_def)

lemma DetermineWinner_Winner:
  "Winner (DetermineWinner a) = (if Bids a = [] then None else Some (scan_bids (Bids a) 1 0))"
  by (simp add: DetermineWinner_def Let_def)

lemma example_auction_scan: "scan_bids (Bids example_auction) 1 0 = 2"
  by (simp add: example_auction_def scan_bids.simps)

lemma example_auction_Bids_nonempty: "Bids example_auction \<noteq> []"
  by (simp add: example_auction_def)

text \<open>
  Claim C1. For every auction with a non-empty bid sequence, \<open>DetermineWinner\<close> sets the
  winner to an element of the sequence whose amount is greater than or equal to the amount
  of every bid, and whose timestamp is no later than that of any bid with the same
  (maximal) amount.
\<close>

theorem DetermineWinner_highest_earliest:
  assumes "Bids a \<noteq> []"
  shows "\<exists>w. Winner (DetermineWinner a) = Some w \<and> w < length (Bids a)
           \<and> winner_bid (DetermineWinner a) = Some (Bids a ! w)
           \<and> (\<forall>b \<in> set (Bids a). Amount b \<le> Amount (Bids a ! w))
           \<and> (\<forall>b \<in> set (Bids a). Amount b = Amount (Bids a ! w)
                  \<longrightarrow> Timestamp (Bids a ! w) \<le> Timestamp b)"
proof -
  let ?w = "scan_bids (Bids a) 1 0"
  from scan_bids_from_start [OF assms]
  have best: "best_upto (Bids a) (length (Bids a)) ?w" .
  then have w: "?w < length (Bids a)"
    by (simp add: best_upto_def)
  have win: "Winner (DetermineWinner a) = Some ?w"
    using assms by (simp add: DetermineWinner_Winner)
  have deref: "winner_bid (DetermineWinner a) = Some (Bids a ! ?w)"
    by (simp add: winner_bid_def win DetermineWinner_Bids)
  have amount: "Amount b \<le> Amount (Bids a ! ?w)" if "b \<in> set (Bids a)" for b
    using that best by (auto simp: best_upto_def in_set_conv_nth)
  have stamp: "Timestamp (Bids a ! ?w) \<le> Timestamp b"
    if "b \<in> set (Bids a)" "Amount b = Amount (Bids a ! ?w)" for b
    using that best by (auto simp: best_upto_def in_set_conv_nth)
  from win w deref amount stamp show ?thesis by blast
qed

theorem DetermineWinner_highest_earliest_witness:
  "Bids example_auction \<noteq> []
   \<and> Winner (DetermineWinner example_auction) = Some 2
   \<and> winner_bid (DetermineWinner example_auction)
       = Some \<lparr>BidderID = 3, Amount = 250, Timestamp = 7\<rparr>
   \<and> Amount (Bids example_auction ! 0) \<le> Amount (Bids example_auction ! 2)
   \<and> Amount (Bids example_auction ! 1) = Amount (Bids example_auction ! 2)
   \<and> Timestamp (Bids example_auction ! 2) \<le> Timestamp (Bids example_auction ! 1)"
proof -
  from DetermineWinner_highest_earliest [OF example_auction_Bids_nonempty]
  obtain w where win: "Winner (DetermineWinner example_auction) = Some w"
    and deref: "winner_bid (DetermineWinner example_auction) = Some (Bids example_auction ! w)"
    and amount: "\<And>b. b \<in> set (Bids example_auction)
                   \<Longrightarrow> Amount b \<le> Amount (Bids example_auction ! w)"
    and stamp: "\<And>b. b \<in> set (Bids example_auction)
                   \<Longrightarrow> Amount b = Amount (Bids example_auction ! w)
                   \<Longrightarrow> Timestamp (Bids example_auction ! w) \<le> Timestamp b"
    by blast
  have "Winner (DetermineWinner example_auction) = Some 2"
    using example_auction_Bids_nonempty example_auction_scan
    by (simp add: DetermineWinner_Winner)
  with win have w: "w = 2" by simp
  have mem: "Bids example_auction ! 0 \<in> set (Bids example_auction)"
    "Bids example_auction ! 1 \<in> set (Bids example_auction)"
    by (simp_all add: example_auction_def)
  have tie: "Amount (Bids example_auction ! 1) = Amount (Bids example_auction ! 2)"
    by (simp add: example_auction_def)
  have third: "Bids example_auction ! 2 = \<lparr>BidderID = 3, Amount = 250, Timestamp = 7\<rparr>"
    by (simp add: example_auction_def)
  from amount [OF mem(1)] stamp [OF mem(2)] tie win deref third example_auction_Bids_nonempty
  show ?thesis unfolding w by simp
qed

text \<open>
  Claim C2. After \<open>DetermineWinner\<close> the total-bid count is the length of the bid sequence,
  the winner is nil exactly when the bid sequence is empty, and a winner that is present
  points to an element of the bid sequence.
\<close>

theorem DetermineWinner_invariant:
  "TotalBids (DetermineWinner a) = length (Bids (DetermineWinner a))
   \<and> (Winner (DetermineWinner a) = None \<longleftrightarrow> Bids (DetermineWinner a) = [])
   \<and> (\<forall>w. Winner (DetermineWinner a) = Some w \<longrightarrow>
          w < length (Bids (DetermineWinner a))
          \<and> winner_bid (DetermineWinner a) = Some (Bids (DetermineWinner a) ! w)
          \<and> Bids (DetermineWinner a) ! w \<in> set (Bids (DetermineWinner a)))"
proof (cases "Bids a = []")
  case True
  then show ?thesis
    by (simp add: DetermineWinner_Winner DetermineWinner_Bids DetermineWinner_TotalBids)
next
  case False
  from scan_bids_from_start [OF False]
  have "scan_bids (Bids a) 1 0 < length (Bids a)"
    by (simp add: best_upto_def)
  with False show ?thesis
    by (simp add: DetermineWinner_Winner DetermineWinner_Bids DetermineWinner_TotalBids
        winner_bid_def)
qed

theorem DetermineWinner_invariant_witness:
  "Winner (DetermineWinner example_auction) = Some 2
   \<and> TotalBids (DetermineWinner example_auction) = 3
   \<and> length (Bids (DetermineWinner example_auction)) = 3
   \<and> winner_bid (DetermineWinner example_auction)
       = Some \<lparr>BidderID = 3, Amount = 250, Timestamp = 7\<rparr>
   \<and> \<lparr>BidderID = 3, Amount = 250, Timestamp = 7\<rparr> \<in> set (Bids (DetermineWinner example_auction))"
proof -
  have win: "Winner (DetermineWinner example_auction) = Some 2"
    using example_auction_Bids_nonempty example_auction_scan
    by (simp add: DetermineWinner_Winner)
  have len: "length (Bids (DetermineWinner example_auction)) = 3"
    by (simp add: DetermineWinner_Bids example_auction_def)
  have nth: "Bids (DetermineWinner example_auction) ! 2
               = \<lparr>BidderID = 3, Amount = 250, Timestamp = 7\<rparr>"
    by (simp add: DetermineWinner_Bids example_auction_def)
  from DetermineWinner_invariant [of example_auction] win
  have "TotalBids (DetermineWinner example_auction)
          = length (Bids (DetermineWinner example_auction))"
    and "winner_bid (DetermineWinner example_auction)
          = Some (Bids (DetermineWinner example_auction) ! 2)"
    and "Bids (DetermineWinner example_auction) ! 2
          \<in> set (Bids (DetermineWinner example_auction))"
    by blast+
  with win len nth show ?thesis by simp
qed

text \<open>
  Claim C10. \<open>DetermineWinner\<close> is idempotent, and the winner and the total-bid count it
  sets depend on the bid sequence only: two auctions with the same bid sequence get the
  same winner and the same count, so a second invocation with no \<open>AddBid\<close> in between
  changes neither.
\<close>

theorem DetermineWinner_idempotent:
  "DetermineWinner (DetermineWinner a) = DetermineWinner a
   \<and> (Bids a = Bids a' \<longrightarrow>
        Winner (DetermineWinner a) = Winner (DetermineWinner a')
        \<and> TotalBids (DetermineWinner a) = TotalBids (DetermineWinner a'))"
  by (simp add: DetermineWinner_def Let_def)

theorem DetermineWinner_idempotent_witness:
  "DetermineWinner (DetermineWinner example_auction) = DetermineWinner example_auction
   \<and> Bids example_auction = Bids (example_auction\<lparr>ID := 2, Winner := Some 0, TotalBids := 7\<rparr>)
   \<and> Winner (DetermineWinner example_auction)
       = Winner (DetermineWinner (example_auction\<lparr>ID := 2, Winner := Some 0, TotalBids := 7\<rparr>))
   \<and> TotalBids (DetermineWinner example_auction)
       = TotalBids (DetermineWinner (example_auction\<lparr>ID := 2, Winner := Some 0, TotalBids := 7\<rparr>))"
proof -
  have same: "Bids example_auction
                = Bids (example_auction\<lparr>ID := 2, Winner := Some 0, TotalBids := 7\<rparr>)"
    by simp
  from DetermineWinner_idempotent
         [of example_auction "example_auction\<lparr>ID := 2, Winner := Some 0, TotalBids := 7\<rparr>"]
    same
  show ?thesis by blast
qed

section \<open>Theorems on the manager's global bounds\<close>

lemma bounds_loop_Min_Max:
  "bounds_loop as firstStart lastEnd =
     (Min (insert firstStart (StartTime ` set as)), Max (insert lastEnd (EndTime ` set as)))"
proof (induction as arbitrary: firstStart lastEnd)
  case Nil
  show ?case by simp
next
  case (Cons a as)
  have fin: "finite (StartTime ` set as)" "finite (EndTime ` set as)" by simp_all
  have lo: "Min (insert (if StartTime a < firstStart then StartTime a else firstStart)
                   (StartTime ` set as))
              = Min (insert firstStart (insert (StartTime a) (StartTime ` set as)))"
    using fin by (cases "StartTime ` set as = {}") (auto simp: min_def)
  have hi: "Max (insert (if lastEnd < EndTime a then EndTime a else lastEnd)
                   (EndTime ` set as))
              = Max (insert lastEnd (insert (EndTime a) (EndTime ` set as)))"
    using fin by (cases "EndTime ` set as = {}") (auto simp: max_def)
  show ?case
    by (simp add: Cons.IH lo hi)
qed

lemma global_bounds_Min_Max:
  assumes "collected \<noteq> []"
  shows "global_bounds collected =
           (Min (StartTime ` set collected), Max (EndTime ` set collected))"
proof -
  have "collected ! 0 \<in> set collected"
    using assms by simp
  then have "insert (StartTime (collected ! 0)) (StartTime ` set collected)
               = StartTime ` set collected"
    and "insert (EndTime (collected ! 0)) (EndTime ` set collected)
               = EndTime ` set collected"
    by blast+
  then show ?thesis
    using assms by (simp add: global_bounds_def bounds_loop_Min_Max)
qed

text \<open>
  Claim C8. For a non-empty collection of completed auctions (the manager collects
  \<open>NumAuctions = 40\<close> of them), the first-start instant returned is less than or equal to
  the start of every auction, the last-end instant returned is greater than or equal to
  the end of every auction, and each of the two is the start, respectively the end, of
  some auction of the collection.
\<close>

theorem global_bounds_extremes:
  assumes "collected \<noteq> []"
    and "global_bounds collected = (firstStart, lastEnd)"
  shows "(\<forall>a \<in> set collected. firstStart \<le> StartTime a \<and> EndTime a \<le> lastEnd)
         \<and> (\<exists>a \<in> set collected. StartTime a = firstStart)
         \<and> (\<exists>a \<in> set collected. EndTime a = lastEnd)"
proof -
  let ?S = "StartTime ` set collected" and ?E = "EndTime ` set collected"
  have fin: "finite ?S" "finite ?E" and ne: "?S \<noteq> {}" "?E \<noteq> {}"
    using assms(1) by simp_all
  from assms global_bounds_Min_Max [OF assms(1)]
  have fs: "firstStart = Min ?S" and le: "lastEnd = Max ?E"
    by simp_all
  have "firstStart \<le> StartTime a \<and> EndTime a \<le> lastEnd" if "a \<in> set collected" for a
    using that fin by (simp add: fs le)
  moreover have "firstStart \<in> ?S"
    unfolding fs using fin(1) ne(1) by (rule Min_in)
  moreover have "lastEnd \<in> ?E"
    unfolding le using fin(2) ne(2) by (rule Max_in)
  ultimately show ?thesis by (auto simp: image_iff)
qed

theorem global_bounds_extremes_witness:
  "example_results \<noteq> [] \<and> global_bounds example_results = (10, 5000000090)
   \<and> 10 \<le> StartTime (example_results ! 0) \<and> EndTime (example_results ! 0) \<le> 5000000090
   \<and> 10 \<le> StartTime (example_results ! 2) \<and> EndTime (example_results ! 2) \<le> 5000000090
   \<and> (\<exists>a \<in> set example_results. StartTime a = 10)
   \<and> (\<exists>a \<in> set example_results. EndTime a = 5000000090)"
proof -
  have ne: "example_results \<noteq> []"
    by (simp add: example_results_def)
  have gb: "global_bounds example_results = (10, 5000000090)"
    by (simp add: global_bounds_def example_results_def NewAuction_def)
  have mem: "example_results ! 0 \<in> set example_results"
    "example_results ! 2 \<in> set example_results"
    by (simp_all add: example_results_def)
  from global_bounds_extremes [OF ne gb] ne gb mem show ?thesis by blast
qed

section \<open>Theorems on the bidders\<close>

text \<open>
  Claim C5. The processing delay of \<open>placeBid\<close> is \<open>10 + rand.Intn(490)\<close> milliseconds:
  the delays that can occur are exactly the integers from 10 to 499. The value 500 of the
  range \<open>[10, 500]\<close> of the claim, which is the range the comment of the source gives
  (\<open>10-500ms\<close>), never occurs.
\<close>

theorem processingDelay_range:
  "range processingDelay = {10..499} \<and> 500 \<notin> range processingDelay"
proof -
  have sub: "processingDelay v \<in> {10..499}" for v
  proof -
    have "v mod 490 < 490" by simp
    then show ?thesis by (simp add: processingDelay_def Intn_def)
  qed
  have sup: "k \<in> range processingDelay" if "k \<in> {10..499}" for k
  proof -
    from that have "k - 10 < 490" and "10 \<le> k" by auto
    then have "(k - 10) mod 490 = k - 10" and "10 \<le> k" by simp_all
    then have "processingDelay (k - 10) = k"
      by (simp add: processingDelay_def Intn_def)
    then show ?thesis by (metis rangeI)
  qed
  have eq: "range processingDelay = {10..499}"
    using sub sup by blast
  then show ?thesis by simp
qed

section \<open>Theorems on an auction run\<close>

lemma run_reachable_refl: "run_reachable s s"
  by (simp add: run_reachable_def)

lemma run_reachable_step: "run_reachable s t \<Longrightarrow> run_step t u \<Longrightarrow> run_reachable s u"
  by (simp add: run_reachable_def)

lemma late_run_waiting: "waiting late_run = [NewBidder 1 0]"
  by (simp add: late_run_def Run_init_def notifyBidders_def ConsiderBid_def NewBidder_def)

text \<open>
  Claim C3. A submission attempted after the run has closed \<open>bidChan\<close> is not a silent
  no-op: the \<open>select\<close> of \<open>placeBid\<close> takes its send case, and a send on a closed channel
  panics. In the run \<open>late_run\<close> (timeout 5 ms, one bidder, who takes part) the deadline
  fires, the collecting loop stops and the run closes the channel before the bidder, who
  sleeps at least 10 ms, submits: the state reached is a panic.
\<close>

theorem late_submission_panics:
  "\<exists>s. run_reachable late_run s \<and> phase s = Closed \<and> panicked s"
proof -
  let ?s1 = "late_run\<lparr>clock := 5000000\<rparr>"
  let ?s2 = "?s1\<lparr>deadline := True\<rparr>"
  let ?s3 = "?s2\<lparr>phase := Closing\<rparr>"
  let ?s4 = "?s3\<lparr>phase := Closed, bidChan := (bidChan ?s3)\<lparr>closed := True\<rparr>,
                 auction := DetermineWinner ((auction ?s3)\<lparr>EndTime := clock ?s3\<rparr>)\<rparr>"
  let ?s5 = "?s4\<lparr>clock := 10000000\<rparr>"
  let ?s6 = "?s5\<lparr>waiting := remove1 (NewBidder 1 0) (waiting ?s5), panicked := True\<rparr>"
  have init: "\<not> panicked late_run" "\<not> deadline late_run" "phase late_run = Open"
    "clock late_run = 0" "StartTime (auction late_run) = 0"
    "Timeout (auction late_run) = 5000000"
    by (simp_all add: late_run_def Run_init_def NewAuction_def)
  have 1: "run_step late_run ?s1"
    using init by (intro run_step.tick) simp_all
  have 2: "run_step ?s1 ?s2"
    using init by (intro run_step.fire) simp_all
  have 3: "run_step ?s2 ?s3"
    using init by (intro run_step.stop) simp_all
  have 4: "run_step ?s3 ?s4"
    using init by (intro run_step.close) simp_all
  have 5: "run_step ?s4 ?s5"
    using init by (intro run_step.tick) simp_all
  have 6: "run_step ?s5 ?s6"
  proof (rule run_step.panic [where bidAmount = 100])
    show "\<not> panicked ?s5" using init by simp
    show "NewBidder 1 0 \<in> set (waiting ?s5)" by (simp add: late_run_waiting)
    show "placeBid (NewBidder 1 0) 100 (clock ?s5) (bidChan ?s5) = SendOnClosedPanic"
      by (simp add: placeBid_def placeBid_select_def)
  qed
  note run_reachable_refl [of late_run]
  from this 1 have "run_reachable late_run ?s1" by (rule run_reachable_step)
  from this 2 have "run_reachable late_run ?s2" by (rule run_reachable_step)
  from this 3 have "run_reachable late_run ?s3" by (rule run_reachable_step)
  from this 4 have "run_reachable late_run ?s4" by (rule run_reachable_step)
  from this 5 have "run_reachable late_run ?s5" by (rule run_reachable_step)
  from this 6 have "run_reachable late_run ?s6" by (rule run_reachable_step)
  moreover have "phase ?s6 = Closed" by simp
  moreover have "panicked ?s6" by simp
  ultimately show ?thesis by (intro exI [of _ ?s6] conjI)
qed

lemma mset_map_remove1:
  "b \<in> set xs \<Longrightarrow> mset (map f (remove1 b xs)) + {#f b#} = mset (map f xs)"
  by (induction xs) auto

lemma placeBid_Submitted:
  assumes "placeBid b bidAmount now c = Submitted c'"
  shows "mset (map BidderID (buf c')) = mset (map BidderID (buf c)) + {#Bidder_ID b#}"
  using assms by (auto simp: placeBid_def placeBid_select_def split: if_splits)

lemma run_step_ids: "run_step s t \<Longrightarrow> run_ids t \<subseteq># run_ids s"
proof (induction rule: run_step.induct)
  case (tick s later)
  then show ?case by (simp add: run_ids_def)
next
  case (submit s b bidAmount c)
  from mset_map_remove1 [OF submit(2), of Bidder_ID] placeBid_Submitted [OF submit(3)]
  have "run_ids (s\<lparr>waiting := remove1 b (waiting s), bidChan := c\<rparr>) = run_ids s"
    by (simp add: run_ids_def ac_simps)
  then show ?case by simp
next
  case (drop s b bidAmount)
  from mset_map_remove1 [OF drop(2), of Bidder_ID]
  have "run_ids (s\<lparr>waiting := remove1 b (waiting s)\<rparr>) + {#Bidder_ID b#} = run_ids s"
    by (simp add: run_ids_def ac_simps)
  then show ?case by (metis mset_subset_eq_add_left)
next
  case (panic s b bidAmount)
  from mset_map_remove1 [OF panic(2), of Bidder_ID]
  have "run_ids (s\<lparr>waiting := remove1 b (waiting s), panicked := True\<rparr>) + {#Bidder_ID b#}
          = run_ids s"
    by (simp add: run_ids_def ac_simps)
  then show ?case by (metis mset_subset_eq_add_left)
next
  case (receive s bid rest)
  then show ?case by (simp add: run_ids_def AddBid_def)
next
  case (fire s)
  then show ?case by (simp add: run_ids_def)
next
  case (stop s)
  then show ?case by (simp add: run_ids_def)
next
  case (close s)
  then show ?case by (simp add: run_ids_def DetermineWinner_Bids)
qed

lemma run_reachable_ids: "run_reachable s t \<Longrightarrow> run_ids t \<subseteq># run_ids s"
  unfolding run_reachable_def
proof (induction rule: rtranclp_induct)
  case base
  show ?case by simp
next
  case (step t u)
  from run_step_ids [OF step(2)] step(3) show ?case
    by (rule subset_mset.order_trans)
qed

lemma distinct_mset_mono_list:
  assumes "mset xs \<subseteq># mset ys" and "distinct ys"
  shows "distinct xs"
proof -
  have "count (mset xs) a \<le> 1" for a
  proof -
    have "count (mset xs) a \<le> count (mset ys) a"
      using assms(1) by (rule mset_subset_eq_count)
    also have "\<dots> \<le> 1"
      using assms(2) by (simp add: distinct_count_atmost_1)
    finally show ?thesis .
  qed
  then show ?thesis
    by (metis count_mset_0_iff distinct_count_atmost_1 le_antisym less_one linorder_not_le)
qed

lemma notifyBidders_distinct:
  assumes "distinct (map Bidder_ID bidders)"
  shows "distinct (map Bidder_ID (notifyBidders bidders rnd))"
proof -
  let ?zs = "zip bidders [0..<length bidders]"
  have "map (Bidder_ID \<circ> fst) ?zs = map Bidder_ID bidders"
    by (simp flip: map_map)
  with assms have "distinct (map (Bidder_ID \<circ> fst) ?zs)" by simp
  then have "distinct (map (Bidder_ID \<circ> fst) (filter (\<lambda>(b, i). ConsiderBid b (rnd i)) ?zs))"
    by (rule distinct_map_filter)
  then show ?thesis by (simp add: notifyBidders_def)
qed

lemma NewManager_ids: "map Bidder_ID (NewManager rates) = map (\<lambda>i. int i + 1) [0..<NumBidders]"
  by (simp add: NewManager_def NewBidder_def)

lemma NewManager_distinct: "distinct (map Bidder_ID (NewManager rates))"
  unfolding NewManager_ids by (simp add: distinct_map inj_on_def)

lemma Run_init_ids:
  "run_ids (Run_init auction_id timeout attrs now bidders rnd)
     = mset (map Bidder_ID (notifyBidders bidders rnd))"
  by (simp add: run_ids_def Run_init_def make_chan_def NewAuction_def)

lemma run_bids_distinct:
  assumes "distinct (map Bidder_ID bidders)"
    and "run_reachable (Run_init auction_id timeout attrs now bidders rnd) s"
  shows "distinct (map BidderID (Bids (auction s)))"
proof -
  have "mset (map BidderID (Bids (auction s))) \<subseteq># run_ids s"
    by (simp add: run_ids_def)
  also have "\<dots> \<subseteq># mset (map Bidder_ID (notifyBidders bidders rnd))"
    using run_reachable_ids [OF assms(2)] by (simp add: Run_init_ids)
  finally show ?thesis
    using notifyBidders_distinct [OF assms(1)] by (rule distinct_mset_mono_list)
qed

lemma notifyBidders_all:
  assumes "\<And>b i. b \<in> set bidders \<Longrightarrow> ConsiderBid b (rnd i)"
  shows "notifyBidders bidders rnd = bidders"
proof -
  have "\<forall>x \<in> set (zip bidders [0..<length bidders]). (\<lambda>(b, i). ConsiderBid b (rnd i)) x"
    using assms by (auto dest: set_zip_leftD)
  then have "filter (\<lambda>(b, i). ConsiderBid b (rnd i)) (zip bidders [0..<length bidders])
               = zip bidders [0..<length bidders]"
    by (rule iffD2 [OF filter_id_conv])
  then show ?thesis by (simp add: notifyBidders_def)
qed

lemma manager_run_waiting: "waiting manager_run = NewManager (\<lambda>i. 0)"
proof -
  have "ConsiderBid b 0" if "b \<in> set (NewManager (\<lambda>i. 0))" for b
    using that by (auto simp: NewManager_def NewBidder_def ConsiderBid_def)
  then have "notifyBidders (NewManager (\<lambda>i. 0)) (\<lambda>i. 0) = NewManager (\<lambda>i. 0)"
    by (intro notifyBidders_all) simp
  then show ?thesis by (simp add: manager_run_def Run_init_def)
qed

lemma NewManager_member:
  "i < NumBidders \<Longrightarrow> NewBidder (int i + 1) (rates i) \<in> set (NewManager rates)"
  by (simp add: NewManager_def)

text \<open>
  Claim C9. In every state of a run of an auction over the manager's bidders, the bidder
  identifiers of the auction's bid sequence are pairwise distinct: each bidder has at most
  one bid in it. (\<open>notifyBidders\<close> starts at most one \<open>placeBid\<close> per bidder, each submits
  at most one bid, and the identifiers of the manager's bidders are distinct.)
\<close>

theorem one_bid_per_bidder:
  assumes "run_reachable (Run_init auction_id timeout attrs now (NewManager rates) rnd) s"
  shows "distinct (map BidderID (Bids (auction s)))"
  using NewManager_distinct assms by (rule run_bids_distinct)

theorem one_bid_per_bidder_witness:
  "\<exists>s. run_reachable manager_run s
      \<and> map BidderID (Bids (auction s)) = [1, 2]
      \<and> distinct (map BidderID (Bids (auction s)))"
proof -
  let ?b1 = "NewBidder 1 0" and ?b2 = "NewBidder 2 0"
  let ?bid1 = "\<lparr>BidderID = 1, Amount = 100, Timestamp = 0\<rparr>"
  let ?bid2 = "\<lparr>BidderID = 2, Amount = 200, Timestamp = 0\<rparr>"
  let ?s0 = manager_run
  let ?s1 = "?s0\<lparr>waiting := remove1 ?b1 (waiting ?s0),
                 bidChan := (bidChan ?s0)\<lparr>buf := [?bid1]\<rparr>\<rparr>"
  let ?s2 = "?s1\<lparr>waiting := remove1 ?b2 (waiting ?s1),
                 bidChan := (bidChan ?s0)\<lparr>buf := [?bid1, ?bid2]\<rparr>\<rparr>"
  let ?s3 = "?s2\<lparr>auction := AddBid ?bid1 (auction ?s2),
                 bidChan := (bidChan ?s2)\<lparr>buf := [?bid2]\<rparr>\<rparr>"
  let ?s4 = "?s3\<lparr>auction := AddBid ?bid2 (auction ?s3),
                 bidChan := (bidChan ?s3)\<lparr>buf := []\<rparr>\<rparr>"
  have init: "\<not> panicked ?s0" "phase ?s0 = Open" "bidChan ?s0 = make_chan 200"
    "Bids (auction ?s0) = []" "clock ?s0 = 0"
    by (simp_all add: manager_run_def Run_init_def NewAuction_def)
  have m1: "?b1 \<in> set (waiting ?s0)"
    using NewManager_member [of 0 "\<lambda>i. 0"]
    by (simp add: manager_run_waiting NumBidders_def)
  have "?b2 \<in> set (waiting ?s0)"
    using NewManager_member [of 1 "\<lambda>i. 0"]
    by (simp add: manager_run_waiting NumBidders_def)
  moreover have "?b2 \<noteq> ?b1"
    by (simp add: NewBidder_def)
  ultimately have m2: "?b2 \<in> set (waiting ?s1)"
    by simp
  have 1: "run_step ?s0 ?s1"
    using init(1) m1
    by (rule run_step.submit [where bidAmount = 100])
      (simp add: placeBid_def placeBid_select_def init make_chan_def NewBidder_def)
  have 2: "run_step ?s1 ?s2"
  proof (rule run_step.submit [where bidAmount = 200])
    show "\<not> panicked ?s1" using init by simp
    show "?b2 \<in> set (waiting ?s1)" by (rule m2)
    show "placeBid ?b2 200 (clock ?s1) (bidChan ?s1)
            = Submitted ((bidChan ?s0)\<lparr>buf := [?bid1, ?bid2]\<rparr>)"
      by (simp add: placeBid_def placeBid_select_def init make_chan_def NewBidder_def)
  qed
  have 3: "run_step ?s2 ?s3"
    using init by (intro run_step.receive) simp_all
  have 4: "run_step ?s3 ?s4"
    using init by (intro run_step.receive) simp_all
  note run_reachable_refl [of ?s0]
  from this 1 have "run_reachable ?s0 ?s1" by (rule run_reachable_step)
  from this 2 have "run_reachable ?s0 ?s2" by (rule run_reachable_step)
  from this 3 have "run_reachable ?s0 ?s3" by (rule run_reachable_step)
  from this 4 have reach: "run_reachable ?s0 ?s4" by (rule run_reachable_step)
  have ids: "map BidderID (Bids (auction ?s4)) = [1, 2]"
    by (simp add: AddBid_def init)
  from reach ids obtain s where s: "run_reachable manager_run s"
    and s_ids: "map BidderID (Bids (auction s)) = [1, 2]"
    by (intro that [of ?s4])
  from s have "distinct (map BidderID (Bids (auction s)))"
    unfolding manager_run_def by (rule one_bid_per_bidder)
  with s s_ids show ?thesis by (intro exI [of _ s] conjI)
qed

lemma DetermineWinner_times:
  "StartTime (DetermineWinner a) = StartTime a" "EndTime (DetermineWinner a) = EndTime a"
  "Timeout (DetermineWinner a) = Timeout a"
  by (simp_all add: DetermineWinner_def Let_def)

lemma run_inv_init: "run_inv (Run_init auction_id timeout attrs now bidders rnd)"
  by (simp add: run_inv_def Run_init_def)

lemma run_inv_step: "run_step s t \<Longrightarrow> run_inv s \<Longrightarrow> run_inv t"
proof (induction rule: run_step.induct)
  case (tick s later)
  then show ?case by (auto simp: run_inv_def)
next
  case (submit s b bidAmount c)
  then show ?case by (simp add: run_inv_def)
next
  case (drop s b bidAmount)
  then show ?case by (simp add: run_inv_def)
next
  case (panic s b bidAmount)
  then show ?case by (simp add: run_inv_def)
next
  case (receive s bid rest)
  then show ?case by (simp add: run_inv_def AddBid_def)
next
  case (fire s)
  then show ?case by (simp add: run_inv_def)
next
  case (stop s)
  then show ?case by (simp add: run_inv_def)
next
  case (close s)
  then show ?case by (simp add: run_inv_def DetermineWinner_times)
qed

lemma run_reachable_inv: "run_reachable s t \<Longrightarrow> run_inv s \<Longrightarrow> run_inv t"
  unfolding run_reachable_def
  by (induction rule: rtranclp_induct) (auto intro: run_inv_step)

lemma run_step_times:
  "run_step s t \<Longrightarrow> StartTime (auction t) = StartTime (auction s)
     \<and> Timeout (auction t) = Timeout (auction s)"
  by (induction rule: run_step.induct) (simp_all add: AddBid_def DetermineWinner_times)

lemma run_reachable_times:
  "run_reachable s t \<Longrightarrow> StartTime (auction t) = StartTime (auction s)
     \<and> Timeout (auction t) = Timeout (auction s)"
  unfolding run_reachable_def
  by (induction rule: rtranclp_induct) (simp_all add: run_step_times)

lemma run_step_stopped_Bids:
  "run_step s t \<Longrightarrow> phase s \<noteq> Open \<Longrightarrow> Bids (auction t) = Bids (auction s)"
  by (induction rule: run_step.induct) (simp_all add: DetermineWinner_Bids)

section \<open>Theorems on the manager's fan-in\<close>

lemma run_step_ID: "run_step s t \<Longrightarrow> ID (auction t) = ID (auction s)"
  by (induction rule: run_step.induct) (simp_all add: AddBid_def DetermineWinner_def Let_def)

lemma run_reachable_ID: "run_reachable s t \<Longrightarrow> ID (auction t) = ID (auction s)"
  unfolding run_reachable_def
  by (induction rule: rtranclp_induct) (simp_all add: run_step_ID)

lemma Run_init_ID: "ID (auction (Run_init auction_id timeout attrs now bidders rnd)) = auction_id"
  by (simp add: Run_init_def NewAuction_def)

lemma run_can_close:
  "\<exists>r. run_reachable (Run_init auction_id timeout attrs now bidders rnd) r
        \<and> phase r = Closed \<and> \<not> panicked r"
proof -
  let ?s0 = "Run_init auction_id timeout attrs now bidders rnd"
  let ?s1 = "?s0\<lparr>clock := max now (now + timeout)\<rparr>"
  let ?s2 = "?s1\<lparr>deadline := True\<rparr>"
  let ?s3 = "?s2\<lparr>phase := Closing\<rparr>"
  let ?s4 = "?s3\<lparr>phase := Closed, bidChan := (bidChan ?s3)\<lparr>closed := True\<rparr>,
                 auction := DetermineWinner ((auction ?s3)\<lparr>EndTime := clock ?s3\<rparr>)\<rparr>"
  have init: "\<not> panicked ?s0" "\<not> deadline ?s0" "phase ?s0 = Open" "clock ?s0 = now"
    "StartTime (auction ?s0) = now" "Timeout (auction ?s0) = timeout"
    by (simp_all add: Run_init_def NewAuction_def)
  have 1: "run_step ?s0 ?s1"
    using init by (intro run_step.tick) simp_all
  have 2: "run_step ?s1 ?s2"
    using init by (intro run_step.fire) simp_all
  have 3: "run_step ?s2 ?s3"
    using init by (intro run_step.stop) simp_all
  have 4: "run_step ?s3 ?s4"
    using init by (intro run_step.close) simp_all
  note run_reachable_refl [of ?s0]
  from this 1 have "run_reachable ?s0 ?s1" by (rule run_reachable_step)
  from this 2 have "run_reachable ?s0 ?s2" by (rule run_reachable_step)
  from this 3 have "run_reachable ?s0 ?s3" by (rule run_reachable_step)
  from this 4 have "run_reachable ?s0 ?s4" by (rule run_reachable_step)
  moreover have "phase ?s4 = Closed" by simp
  moreover have "\<not> panicked ?s4" using init by simp
  ultimately show ?thesis by (intro exI [of _ ?s4] conjI)
qed

lemma mgr_inv_init: "mgr_inv Manager_init"
  by (simp add: mgr_inv_def Manager_init_def make_chan_def)

lemma mgr_inv_step:
  assumes "mgr_step bidders m m'" and "mgr_inv m"
  shows "mgr_inv m'"
  using assms
proof (induction rule: mgr_step.induct)
  case (emit m auction_id attrs now rnd r)
  have "ID (auction r) = auction_id"
    using run_reachable_ID [OF emit(3)] by (simp add: Run_init_ID)
  moreover from emit(2) obtain others where "mset (running m) = add_mset auction_id others"
    by (metis mset_add set_mset_mset)
  ultimately show ?case
    using emit(6,8) by (auto simp: mgr_inv_def)
next
  case (wg_done m auction_id)
  then show ?case by (auto simp: mgr_inv_def)
next
  case (wait_close m)
  then show ?case by (auto simp: mgr_inv_def)
next
  case (collect m a rest)
  then show ?case by (auto simp: mgr_inv_def)
next
  case (finish m)
  then show ?case by (auto simp: mgr_inv_def)
next
  case (crash m auction_id attrs now rnd r)
  then show ?case by (auto simp: mgr_inv_def)
qed

lemma mgr_reachable_inv: "mgr_reachable bidders m \<Longrightarrow> mgr_inv m"
  unfolding mgr_reachable_def
  by (induction rule: rtranclp_induct) (auto intro: mgr_inv_init mgr_inv_step)

lemma mgr_step_measure: "mgr_step bidders m m' \<Longrightarrow> mgr_measure m' < mgr_measure m"
proof (induction rule: mgr_step.induct)
  case (emit m auction_id attrs now rnd r)
  from emit(2) have "length (remove1 auction_id (running m)) + 1 = length (running m)"
    by (simp add: length_remove1) (metis length_pos_if_in_set Suc_pred)
  then show ?case by (simp add: mgr_measure_def)
next
  case (wg_done m auction_id)
  from wg_done(2) have "length (remove1 auction_id (finishing m)) + 1 = length (finishing m)"
    by (simp add: length_remove1) (metis length_pos_if_in_set Suc_pred)
  then show ?case by (simp add: mgr_measure_def)
next
  case (wait_close m)
  then show ?case by (simp add: mgr_measure_def)
next
  case (collect m a rest)
  then show ?case by (simp add: mgr_measure_def)
next
  case (finish m)
  then show ?case by (simp add: mgr_measure_def)
next
  case (crash m auction_id attrs now rnd r)
  then show ?case by (simp add: mgr_measure_def)
qed

lemma mgr_inv_lengths:
  assumes "mgr_inv m"
  shows "length (auctionResults m) + length (buf (results m)) + length (running m) = NumAuctions"
proof -
  from assms have "size (mset (map ID (auctionResults m)) + mset (map ID (buf (results m)))
                      + mset (running m)) = size (mset auction_ids)"
    by (simp add: mgr_inv_def)
  then show ?thesis by (simp add: auction_ids_def)
qed

lemma mgr_progress:
  assumes "mgr_inv m" and "\<not> returned m" and "\<not> crashed m"
  shows "\<exists>m'. mgr_step bidders m m'"
proof (cases "running m")
  case (Cons auction_id ids)
  from run_can_close obtain r
    where r: "run_reachable (Run_init auction_id 5000000000 (replicate 20 0) 0 bidders (\<lambda>i. 0)) r"
      "phase r = Closed" "\<not> panicked r"
    by blast
  have "auction_id \<in> set (running m)" using Cons by simp
  moreover have "\<not> closed (results m)"
    using assms(1) Cons by (auto simp: mgr_inv_def)
  moreover have "length (buf (results m)) < capacity (results m)"
    using mgr_inv_lengths [OF assms(1)] assms(1) Cons by (simp add: mgr_inv_def)
  ultimately show ?thesis
    using r assms(3) by (blast intro: mgr_step.emit)
next
  case Nil
  note no_running = this
  show ?thesis
  proof (cases "finishing m")
    case (Cons auction_id ids)
    then have "auction_id \<in> set (finishing m)" by simp
    with assms(3) show ?thesis by (blast intro: mgr_step.wg_done)
  next
    case Nil
    show ?thesis
    proof (cases "buf (results m)")
      case (Cons a rest)
      with assms(2,3) show ?thesis by (blast intro: mgr_step.collect)
    next
      case empty: Nil
      show ?thesis
      proof (cases "closed (results m)")
        case True
        with assms(2,3) empty show ?thesis by (blast intro: mgr_step.finish)
      next
        case False
        with assms(3) no_running Nil show ?thesis by (blast intro: mgr_step.wait_close)
      qed
    qed
  qed
qed

lemma mgr_reachable_init: "mgr_reachable bidders Manager_init"
  by (simp add: mgr_reachable_def)

lemma mgr_reachable_step:
  "mgr_reachable bidders m \<Longrightarrow> mgr_step bidders m m' \<Longrightarrow> mgr_reachable bidders m'"
  by (simp add: mgr_reachable_def)

text \<open>
  A step that is not a crash keeps the process alive: from a state that has neither
  returned nor crashed, such a step exists.
\<close>

lemma mgr_progress_alive:
  assumes "mgr_inv m" and "\<not> returned m" and "\<not> crashed m"
  shows "\<exists>m'. mgr_step bidders m m' \<and> \<not> crashed m'"
proof (cases "running m")
  case (Cons auction_id ids)
  from run_can_close obtain r
    where r: "run_reachable (Run_init auction_id 5000000000 (replicate 20 0) 0 bidders (\<lambda>i. 0)) r"
      "phase r = Closed" "\<not> panicked r"
    by blast
  let ?m' = "m\<lparr>running := remove1 auction_id (running m),
                finishing := auction_id # finishing m,
                results := (results m)\<lparr>buf := buf (results m) @ [auction r]\<rparr>\<rparr>"
  have "auction_id \<in> set (running m)" using Cons by simp
  moreover have "\<not> closed (results m)"
    using assms(1) Cons by (auto simp: mgr_inv_def)
  moreover have "length (buf (results m)) < capacity (results m)"
    using mgr_inv_lengths [OF assms(1)] assms(1) Cons by (simp add: mgr_inv_def)
  ultimately have "mgr_step bidders m ?m'"
    using r assms(3) by (intro mgr_step.emit)
  moreover have "\<not> crashed ?m'" using assms(3) by simp
  ultimately show ?thesis by blast
next
  case Nil
  note no_running = this
  show ?thesis
  proof (cases "finishing m")
    case (Cons auction_id ids)
    then have "auction_id \<in> set (finishing m)" by simp
    with assms(3) have "mgr_step bidders m (m\<lparr>finishing := remove1 auction_id (finishing m)\<rparr>)"
      by (intro mgr_step.wg_done)
    moreover have "\<not> crashed (m\<lparr>finishing := remove1 auction_id (finishing m)\<rparr>)"
      using assms(3) by simp
    ultimately show ?thesis by blast
  next
    case Nil
    show ?thesis
    proof (cases "buf (results m)")
      case (Cons a rest)
      with assms(2,3) have "mgr_step bidders m
          (m\<lparr>auctionResults := auctionResults m @ [a], results := (results m)\<lparr>buf := rest\<rparr>\<rparr>)"
        by (intro mgr_step.collect)
      moreover have "\<not> crashed
          (m\<lparr>auctionResults := auctionResults m @ [a], results := (results m)\<lparr>buf := rest\<rparr>\<rparr>)"
        using assms(3) by simp
      ultimately show ?thesis by blast
    next
      case empty: Nil
      show ?thesis
      proof (cases "closed (results m)")
        case True
        with assms(2,3) empty have "mgr_step bidders m (m\<lparr>returned := True\<rparr>)"
          by (intro mgr_step.finish)
        moreover have "\<not> crashed (m\<lparr>returned := True\<rparr>)" using assms(3) by simp
        ultimately show ?thesis by blast
      next
        case False
        with assms(3) no_running Nil
        have "mgr_step bidders m (m\<lparr>results := (results m)\<lparr>closed := True\<rparr>\<rparr>)"
          by (intro mgr_step.wait_close)
        moreover have "\<not> crashed (m\<lparr>results := (results m)\<lparr>closed := True\<rparr>\<rparr>)"
          using assms(3) by simp
        ultimately show ?thesis by blast
      qed
    qed
  qed
qed

lemma mgr_can_return_from:
  "mgr_reachable bidders m \<Longrightarrow> \<not> crashed m
     \<Longrightarrow> \<exists>m'. (mgr_step bidders)\<^sup>*\<^sup>* m m' \<and> returned m' \<and> \<not> crashed m'"
proof (induction m rule: measure_induct_rule [where f = mgr_measure])
  case (less m)
  show ?case
  proof (cases "returned m")
    case True
    with less.prems show ?thesis by blast
  next
    case False
    from mgr_progress_alive [OF mgr_reachable_inv [OF less.prems(1)] False less.prems(2)]
    obtain m1 where step: "mgr_step bidders m m1" and alive: "\<not> crashed m1"
      by blast
    from step have "mgr_measure m1 < mgr_measure m"
      by (rule mgr_step_measure)
    moreover from less.prems(1) step have "mgr_reachable bidders m1"
      by (rule mgr_reachable_step)
    ultimately have "\<exists>m'. (mgr_step bidders)\<^sup>*\<^sup>* m1 m' \<and> returned m' \<and> \<not> crashed m'"
      using alive by (rule less.IH)
    then obtain m' where "(mgr_step bidders)\<^sup>*\<^sup>* m1 m'" and fin: "returned m'" "\<not> crashed m'"
      by blast
    with step have "(mgr_step bidders)\<^sup>*\<^sup>* m m'"
      by (simp add: converse_rtranclp_into_rtranclp)
    with fin show ?thesis by blast
  qed
qed

lemma mgr_reachable_trans:
  "mgr_reachable bidders m \<Longrightarrow> (mgr_step bidders)\<^sup>*\<^sup>* m m' \<Longrightarrow> mgr_reachable bidders m'"
  unfolding mgr_reachable_def by (rule rtranclp_trans)

lemma mgr_can_return: "\<exists>m. mgr_reachable bidders m \<and> returned m \<and> \<not> crashed m"
proof -
  have "\<not> crashed Manager_init" by (simp add: Manager_init_def)
  with mgr_reachable_init obtain m
    where "(mgr_step bidders)\<^sup>*\<^sup>* Manager_init m" and "returned m" and "\<not> crashed m"
    using mgr_can_return_from by blast
  then show ?thesis by (auto simp: mgr_reachable_def)
qed

lemma run_resolved_init: "run_resolved (Run_init auction_id timeout attrs now bidders rnd)"
  by (simp add: run_resolved_def Run_init_def)

lemma run_resolved_step: "run_step s t \<Longrightarrow> run_resolved s \<Longrightarrow> run_resolved t"
proof (induction rule: run_step.induct)
  case (tick s later)
  then show ?case by (simp add: run_resolved_def)
next
  case (submit s b bidAmount c)
  then show ?case by (simp add: run_resolved_def)
next
  case (drop s b bidAmount)
  then show ?case by (simp add: run_resolved_def)
next
  case (panic s b bidAmount)
  then show ?case by (simp add: run_resolved_def)
next
  case (receive s bid rest)
  then show ?case by (simp add: run_resolved_def)
next
  case (fire s)
  then show ?case by (simp add: run_resolved_def)
next
  case (stop s)
  then show ?case by (simp add: run_resolved_def)
next
  case (close s)
  show ?case
    by (simp add: run_resolved_def DetermineWinner_TotalBids DetermineWinner_Bids
        DetermineWinner_Winner)
qed

lemma run_reachable_resolved: "run_reachable s t \<Longrightarrow> run_resolved s \<Longrightarrow> run_resolved t"
  unfolding run_reachable_def
  by (induction rule: rtranclp_induct) (auto intro: run_resolved_step)

lemma completed_auction_facts:
  assumes "completed_auction bidders a"
  shows "StartTime a + 5000000000 \<le> EndTime a"
    and "TotalBids a = length (Bids a)"
    and "Winner a = None \<longleftrightarrow> Bids a = []"
proof -
  from assms obtain attrs now rnd r
    where reach: "run_reachable (Run_init (ID a) 5000000000 attrs now bidders rnd) r"
      and closed: "phase r = Closed" and a: "auction r = a"
    by (auto simp: completed_auction_def)
  from reach run_inv_init have "run_inv r" by (rule run_reachable_inv)
  moreover from run_reachable_times [OF reach] have "Timeout (auction r) = 5000000000"
    by (simp add: Run_init_def NewAuction_def)
  ultimately show "StartTime a + 5000000000 \<le> EndTime a"
    using closed a by (simp add: run_inv_def)
  from reach run_resolved_init have "run_resolved r" by (rule run_reachable_resolved)
  with closed a show "TotalBids a = length (Bids a)" and "Winner a = None \<longleftrightarrow> Bids a = []"
    by (simp_all add: run_resolved_def)
qed

lemma mgr_completed_init: "mgr_completed bidders Manager_init"
  by (simp add: mgr_completed_def Manager_init_def make_chan_def)

lemma mgr_completed_step:
  assumes "mgr_step bidders m m'" and "mgr_completed bidders m"
  shows "mgr_completed bidders m'"
  using assms
proof (induction rule: mgr_step.induct)
  case (emit m auction_id attrs now rnd r)
  have "ID (auction r) = auction_id"
    using run_reachable_ID [OF emit(3)] by (simp add: Run_init_ID)
  with emit(3,4,5) have "completed_auction bidders (auction r)"
    unfolding completed_auction_def by blast
  with emit(8) show ?case by (auto simp: mgr_completed_def)
next
  case (wg_done m auction_id)
  then show ?case by (simp add: mgr_completed_def)
next
  case (wait_close m)
  then show ?case by (simp add: mgr_completed_def)
next
  case (collect m a rest)
  then show ?case by (auto simp: mgr_completed_def)
next
  case (finish m)
  then show ?case by (simp add: mgr_completed_def)
next
  case (crash m auction_id attrs now rnd r)
  then show ?case by (simp add: mgr_completed_def)
qed

lemma mgr_reachable_completed: "mgr_reachable bidders m \<Longrightarrow> mgr_completed bidders m"
  unfolding mgr_reachable_def
  by (induction rule: rtranclp_induct) (auto intro: mgr_completed_init mgr_completed_step)

text \<open>
  Claim C7. In every state of \<open>Manager.Run\<close>: the result channel is closed only when
  every launched runner has sent its auction and left the wait group; every auction
  collected is a completed one, the auction of a run of \<open>auction.Run\<close> that has closed
  (its end instant is at least 5 seconds after its start, its total-bid count is the
  length of its bid sequence); when the range loop has ended, the channel is closed and
  empty and the collected slice holds exactly one auction per launched runner, 40 in all,
  with the identifiers \<open>1, \<dots>, 40\<close> once each. \<open>Manager.Run\<close> does return, unless a
  goroutine panics, which ends the process: from a state that has neither returned nor
  crashed a step that is not a crash is possible, a state in which the loop has ended
  without a crash can be reached from every state without a crash, and every step
  decreases a measure, so that no execution goes on for ever.
\<close>

theorem Manager_Run_collects_every_result:
  assumes "mgr_reachable bidders m"
  shows "(closed (results m) \<longrightarrow> running m = [] \<and> finishing m = [])
         \<and> (\<forall>a \<in> set (auctionResults m).
               completed_auction bidders a
               \<and> StartTime a + 5000000000 \<le> EndTime a
               \<and> TotalBids a = length (Bids a))
         \<and> (returned m \<longrightarrow>
               closed (results m) \<and> buf (results m) = []
               \<and> mset (map ID (auctionResults m)) = mset (map int [1..<41])
               \<and> length (auctionResults m) = 40)
         \<and> (\<not> returned m \<and> \<not> crashed m \<longrightarrow>
               (\<exists>m'. mgr_step bidders m m' \<and> \<not> crashed m'))
         \<and> (\<not> crashed m \<longrightarrow>
               (\<exists>m'. (mgr_step bidders)\<^sup>*\<^sup>* m m' \<and> returned m' \<and> \<not> crashed m'
                     \<and> length (auctionResults m') = 40))
         \<and> (\<forall>m'. mgr_step bidders m m' \<longrightarrow> mgr_measure m' < mgr_measure m)"
proof -
  from assms have inv: "mgr_inv m" by (rule mgr_reachable_inv)
  have returned_facts:
    "closed (results n) \<and> buf (results n) = []
     \<and> mset (map ID (auctionResults n)) = mset (map int [1..<41])
     \<and> length (auctionResults n) = 40" if "mgr_inv n" "returned n" for n
  proof -
    from that have c: "closed (results n)" and e: "buf (results n) = []"
      by (simp_all add: mgr_inv_def)
    with that(1) have r: "running n = []" by (simp add: mgr_inv_def)
    from that(1) e r have "mset (map ID (auctionResults n)) = mset auction_ids"
      by (simp add: mgr_inv_def)
    moreover from mgr_inv_lengths [OF that(1)] e r
    have "length (auctionResults n) = NumAuctions"
      by simp
    ultimately show ?thesis
      using c e by (simp add: auction_ids_def NumAuctions_def)
  qed
  have closing: "closed (results m) \<longrightarrow> running m = [] \<and> finishing m = []"
    using inv by (simp add: mgr_inv_def)
  have completed: "completed_auction bidders a \<and> StartTime a + 5000000000 \<le> EndTime a
                     \<and> TotalBids a = length (Bids a)" if "a \<in> set (auctionResults m)" for a
  proof -
    from mgr_reachable_completed [OF assms] that have "completed_auction bidders a"
      by (simp add: mgr_completed_def)
    then show ?thesis
      using completed_auction_facts(1,2) by blast
  qed
  have at_return: "returned m \<longrightarrow>
      closed (results m) \<and> buf (results m) = []
      \<and> mset (map ID (auctionResults m)) = mset (map int [1..<41])
      \<and> length (auctionResults m) = 40"
    using returned_facts [OF inv] by blast
  have alive: "\<exists>m'. mgr_step bidders m m' \<and> \<not> crashed m'"
    if "\<not> returned m" "\<not> crashed m"
    using inv that by (rule mgr_progress_alive)
  have returns: "\<exists>m'. (mgr_step bidders)\<^sup>*\<^sup>* m m' \<and> returned m' \<and> \<not> crashed m'
                   \<and> length (auctionResults m') = 40" if "\<not> crashed m"
  proof -
    from mgr_can_return_from [OF assms that] obtain m'
      where steps: "(mgr_step bidders)\<^sup>*\<^sup>* m m'" and fin: "returned m'" "\<not> crashed m'"
      by blast
    from assms steps have "mgr_reachable bidders m'" by (rule mgr_reachable_trans)
    then have "mgr_inv m'" by (rule mgr_reachable_inv)
    from returned_facts [OF this fin(1)] steps fin show ?thesis by blast
  qed
  have decreasing: "mgr_measure m' < mgr_measure m" if "mgr_step bidders m m'" for m'
    using that by (rule mgr_step_measure)
  from closing completed at_return alive returns decreasing show ?thesis
    by blast
qed

theorem Manager_Run_collects_every_result_witness:
  "\<exists>m. mgr_reachable (NewManager (\<lambda>i. 0)) m \<and> returned m \<and> \<not> crashed m
      \<and> closed (results m) \<and> buf (results m) = []
      \<and> mset (map ID (auctionResults m)) = mset (map int [1..<41])
      \<and> length (auctionResults m) = 40
      \<and> completed_auction (NewManager (\<lambda>i. 0)) (auctionResults m ! 0)
      \<and> StartTime (auctionResults m ! 0) + 5000000000 \<le> EndTime (auctionResults m ! 0)
      \<and> TotalBids (auctionResults m ! 0) = length (Bids (auctionResults m ! 0))"
proof -
  have start: "\<not> crashed Manager_init"
    by (simp add: Manager_init_def)
  from Manager_Run_collects_every_result [OF mgr_reachable_init, of "NewManager (\<lambda>i. 0)"] start
  obtain m where steps: "(mgr_step (NewManager (\<lambda>i. 0)))\<^sup>*\<^sup>* Manager_init m"
    and m: "returned m" "\<not> crashed m"
    by blast
  from steps have reach: "mgr_reachable (NewManager (\<lambda>i. 0)) m"
    by (simp add: mgr_reachable_def)
  from Manager_Run_collects_every_result [OF reach] m(1)
  have facts: "closed (results m)" "buf (results m) = []"
    "mset (map ID (auctionResults m)) = mset (map int [1..<41])"
    "length (auctionResults m) = 40"
    and all: "\<And>a. a \<in> set (auctionResults m) \<Longrightarrow>
                completed_auction (NewManager (\<lambda>i. 0)) a
                \<and> StartTime a + 5000000000 \<le> EndTime a
                \<and> TotalBids a = length (Bids a)"
    by blast+
  from facts(4) have "auctionResults m ! 0 \<in> set (auctionResults m)"
    by simp
  from all [OF this] reach m facts show ?thesis
    by (intro exI [of _ m]) simp
qed

section \<open>Theorems on the shared random source\<close>

lemma draws_of_schedule_a: "draws_of schedule_a 1 = [0..<20]"
  by code_simp

lemma draws_of_schedule_b: "draws_of schedule_b 1 = [20..<40]"
  by code_simp

text \<open>
  Claim C6. A fixed seed does not fix the attribute vectors: with the same source, the
  auction 1 gets the numbers of the calls 0 to 19 when its goroutine draws before the one
  of auction 2 (\<open>schedule_a\<close>), and those of the calls 20 to 39 when it draws after
  (\<open>schedule_b\<close>); the two attribute vectors differ.
\<close>

theorem seed_does_not_fix_attributes:
  "Run_attributes example_source schedule_a 1 = map example_source [0..<20]
   \<and> Run_attributes example_source schedule_b 1 = map example_source [20..<40]
   \<and> Run_attributes example_source schedule_a 1
       \<noteq> Run_attributes example_source schedule_b 1"
proof -
  have a: "Run_attributes example_source schedule_a 1 = map example_source [0..<20]"
    by (simp add: Run_attributes_def draws_of_schedule_a)
  have b: "Run_attributes example_source schedule_b 1 = map example_source [20..<40]"
    by (simp add: Run_attributes_def draws_of_schedule_b)
  have "map example_source [0..<20] ! 0 \<noteq> map example_source [20..<40] ! 0"
    by (simp add: example_source_def)
  then have "map example_source [0..<20] \<noteq> map example_source [20..<40]"
    by metis
  with a b show ?thesis by simp
qed

section \<open>Theorems on the collection window\<close>

lemma short_run_simps:
  "\<not> panicked short_run" "\<not> deadline short_run" "phase short_run = Open"
  "clock short_run = 0" "StartTime (auction short_run) = 0"
  "Timeout (auction short_run) = 20000000" "Bids (auction short_run) = []"
  "waiting short_run = [NewBidder 1 0]" "bidChan short_run = make_chan 200"
  by (simp_all add: short_run_def Run_init_def NewAuction_def notifyBidders_def
      ConsiderBid_def NewBidder_def)

lemma short_run_at_deadline: "run_reachable short_run at_deadline"
proof -
  let ?s1 = "short_run\<lparr>clock := 20000000\<rparr>"
  let ?c = "(make_chan 200)\<lparr>buf := [waiting_bid]\<rparr>"
  let ?s2 = "?s1\<lparr>waiting := remove1 (NewBidder 1 0) (waiting ?s1), bidChan := ?c\<rparr>"
  let ?s3 = "?s2\<lparr>deadline := True\<rparr>"
  have 1: "run_step short_run ?s1"
    by (intro run_step.tick) (simp_all add: short_run_simps)
  have 2: "run_step ?s1 ?s2"
  proof (rule run_step.submit [where bidAmount = 100])
    show "\<not> panicked ?s1" by (simp add: short_run_simps)
    show "NewBidder 1 0 \<in> set (waiting ?s1)" by (simp add: short_run_simps)
    show "placeBid (NewBidder 1 0) 100 (clock ?s1) (bidChan ?s1) = Submitted ?c"
      by (simp add: placeBid_def placeBid_select_def short_run_simps make_chan_def
          waiting_bid_def NewBidder_def)
  qed
  have 3: "run_step ?s2 ?s3"
    by (intro run_step.fire) (simp_all add: short_run_simps)
  have "?s3 = at_deadline"
    by (simp add: at_deadline_def short_run_simps)
  moreover note run_reachable_refl [of short_run]
  from this 1 have "run_reachable short_run ?s1" by (rule run_reachable_step)
  from this 2 have "run_reachable short_run ?s2" by (rule run_reachable_step)
  from this 3 have "run_reachable short_run ?s3" by (rule run_reachable_step)
  ultimately show ?thesis by simp
qed

lemma at_deadline_step: "run_step at_deadline after_deadline"
  unfolding after_deadline_def
  by (intro run_step.receive) (simp_all add: at_deadline_def short_run_simps)

lemma short_run_stopped: "run_reachable short_run run_stopped"
proof -
  have "run_step after_deadline run_stopped"
    unfolding run_stopped_def
    by (intro run_step.stop) (simp_all add: after_deadline_def at_deadline_def short_run_simps)
  with short_run_at_deadline at_deadline_step show ?thesis
    by (blast intro: run_reachable_step)
qed

lemma run_stopped_step: "run_step run_stopped run_closed"
  unfolding run_closed_def
  by (intro run_step.close)
    (simp_all add: run_stopped_def after_deadline_def at_deadline_def short_run_simps)

text \<open>
  Claim C4, as stated, fails: the deadline is not a hard wall. In the run \<open>short_run\<close>
  (timeout 20 ms, one bidder) the bid of the bidder is queued in the channel when the
  deadline fires (state \<open>at_deadline\<close>); the collecting loop, whose \<open>select\<close> may take
  either of its two ready cases, receives it and appends it to the auction (state
  \<open>after_deadline\<close>).
\<close>

theorem waiting_bid_appended_after_deadline:
  "run_reachable short_run at_deadline
   \<and> deadline at_deadline
   \<and> buf (bidChan at_deadline) = [waiting_bid]
   \<and> Bids (auction at_deadline) = []
   \<and> run_step at_deadline after_deadline
   \<and> Bids (auction after_deadline) = [waiting_bid]"
  using short_run_at_deadline at_deadline_step
  by (simp add: at_deadline_def after_deadline_def AddBid_def short_run_simps)

text \<open>
  Claim C4, amended. In every state of a run: the collecting loop has stopped only if the
  deadline has fired, which happens no earlier than the timeout after the start; once the
  loop has stopped, no step changes the bid sequence; and when the run is closed, the end
  instant is not before the start instant, nor before the start instant plus the timeout.
\<close>

theorem collection_stops_after_deadline:
  assumes "run_reachable (Run_init auction_id timeout attrs now bidders rnd) s"
  shows "StartTime (auction s) = now
         \<and> (phase s \<noteq> Open \<longrightarrow> deadline s)
         \<and> (deadline s \<longrightarrow> now + timeout \<le> clock s)
         \<and> (\<forall>t. run_step s t \<and> phase s \<noteq> Open \<longrightarrow> Bids (auction t) = Bids (auction s))
         \<and> (phase s = Closed \<longrightarrow>
               now \<le> EndTime (auction s) \<and> now + timeout \<le> EndTime (auction s))"
proof -
  have inv: "run_inv s"
    using assms run_inv_init by (rule run_reachable_inv)
  from run_reachable_times [OF assms]
  have times: "StartTime (auction s) = now" "Timeout (auction s) = timeout"
    by (simp_all add: Run_init_def NewAuction_def)
  have "Bids (auction t) = Bids (auction s)" if "run_step s t" "phase s \<noteq> Open" for t
    using that by (rule run_step_stopped_Bids)
  with inv times show ?thesis
    by (auto simp: run_inv_def)
qed

theorem collection_stops_after_deadline_witness:
  "run_reachable short_run run_stopped \<and> phase run_stopped \<noteq> Open \<and> deadline run_stopped
   \<and> run_step run_stopped run_closed
   \<and> Bids (auction run_closed) = Bids (auction run_stopped)
   \<and> run_reachable short_run run_closed \<and> phase run_closed = Closed
   \<and> StartTime (auction run_closed) = 0
   \<and> 0 + 20000000 \<le> EndTime (auction run_closed)"
proof -
  have closing: "phase run_stopped \<noteq> Open"
    by (simp add: run_stopped_def)
  have closed: "phase run_closed = Closed"
    by (simp add: run_closed_def)
  have reach: "run_reachable short_run run_closed"
    using short_run_stopped run_stopped_step by (rule run_reachable_step)
  have a: "deadline run_stopped \<and> Bids (auction run_closed) = Bids (auction run_stopped)"
    using collection_stops_after_deadline [OF short_run_stopped [unfolded short_run_def]]
      closing run_stopped_step
    by blast
  have b: "StartTime (auction run_closed) = 0 \<and> 0 + 20000000 \<le> EndTime (auction run_closed)"
    using collection_stops_after_deadline [OF reach [unfolded short_run_def]] closed
    by blast
  from a b closing closed reach short_run_stopped run_stopped_step show ?thesis
    by simp
qed

end
